theory Spec2Isabelle
  imports Main "HOL-Library.Word"
begin

unbundle bit_operations_syntax

section \<open>shenandoahTaskqueue.hpp: mark tasks, buffered queues, claimable queue sets\<close>

text \<open>
  The C types of the header are read as follows. A \<^verbatim>\<open>uintptr_t\<close> of the \<^verbatim>\<open>_LP64\<close> build is a
  \<open>64 word\<close>; an \<^verbatim>\<open>oop\<close> is the address it holds, \<^verbatim>\<open>(uintptr_t)(void*) o\<close>. A value of C type
  \<^verbatim>\<open>int\<close> or \<^verbatim>\<open>jint\<close> is a HOL \<open>int\<close> in the range \<open>-2^31 ..< 2^31\<close>, and every conversion
  between widths is written out.
\<close>

type_synonym uintptr_t = "64 word"
type_synonym oop = "64 word"

datatype error = AssertFailed string | OutOfBounds

subsection \<open>Conversions of C\<close>

text \<open>\<^verbatim>\<open>(uintptr_t) i\<close> for an \<^verbatim>\<open>int\<close> i: the value modulo \<open>2^64\<close> (sign extension).\<close>

definition to_uintptr :: "int \<Rightarrow> uintptr_t" where
  "to_uintptr i = word_of_int i"

text \<open>\<^verbatim>\<open>(int) w\<close> for a 64-bit value: the low 32 bits, read as two's complement.\<close>

definition to_int :: "uintptr_t \<Rightarrow> int" where
  "to_int w = sint (ucast w :: 32 word)"

subsection \<open>Bit macros\<close>

text \<open>
  Modelled from the spec: \<^verbatim>\<open>nth_bit\<close> and \<^verbatim>\<open>right_n_bits\<close> are macros of
  utilities/globalDefinitions.hpp, which is not among the sources at hand. The spec gives
  each field a bit budget, and the header's comment reads the budgets as 1024 blocks, a power
  below 32 and 512 TB of addresses: \<^verbatim>\<open>nth_bit(n)\<close> is the word whose only set bit is bit n
  (0 when n is not below the word size), and \<^verbatim>\<open>right_n_bits(n)\<close> is the word whose low n bits
  are set.
\<close>

definition nth_bit :: "nat \<Rightarrow> uintptr_t" where
  "nth_bit n = (if n \<ge> 64 then 0 else push_bit n 1)"

definition right_n_bits :: "nat \<Rightarrow> uintptr_t" where
  "right_n_bits n = nth_bit n - 1"

subsection \<open>ObjArrayChunkedTask, the packed encoding of \<^verbatim>\<open>_LP64\<close>\<close>

definition chunk_bits :: nat where "chunk_bits = 10"
definition pow_bits :: nat where "pow_bits = 5"
definition oop_bits :: nat where "oop_bits = 8 * 8 - chunk_bits - pow_bits"

text \<open>The enumerators are 64-bit signed constants; they are kept as their bit patterns.\<close>

definition chunk_size :: uintptr_t where "chunk_size = nth_bit chunk_bits"
definition pow_size :: uintptr_t where "pow_size = nth_bit pow_bits"
definition oop_size :: uintptr_t where "oop_size = nth_bit oop_bits"

definition oop_shift :: nat where "oop_shift = 0"
definition pow_shift :: nat where "pow_shift = oop_shift + oop_bits"
definition chunk_shift :: nat where "chunk_shift = pow_shift + pow_bits"

definition oop_mask :: uintptr_t where "oop_mask = right_n_bits oop_bits"
definition pow_mask :: uintptr_t where "pow_mask = right_n_bits pow_bits"
definition chunk_mask :: uintptr_t where "chunk_mask = right_n_bits chunk_bits"
definition chunk_mask_unshift :: uintptr_t where
  "chunk_mask_unshift = NOT (right_n_bits (oop_bits + pow_bits))"

record ObjArrayChunkedTask =
  obj_word :: uintptr_t

text \<open>\<^verbatim>\<open>ObjArrayChunkedTask(oop o = NULL)\<close>\<close>

definition ObjArrayChunkedTask1 :: "oop \<Rightarrow> ObjArrayChunkedTask" where
  "ObjArrayChunkedTask1 o' = \<lparr>obj_word = push_bit oop_shift o'\<rparr>"

text \<open>
  \<^verbatim>\<open>ObjArrayChunkedTask(oop o, int chunk, int mult)\<close>, in two readings. The product build
  compiles the assertions away; the debug build stops at the first one that fails.
\<close>

definition ObjArrayChunkedTask3 :: "oop \<Rightarrow> int \<Rightarrow> int \<Rightarrow> ObjArrayChunkedTask" where
  "ObjArrayChunkedTask3 o' chunk mult =
     (let t_b = push_bit chunk_shift (to_uintptr chunk);
          t_m = push_bit pow_shift (to_uintptr mult);
          obj = o';
          t_o = push_bit oop_shift obj
      in \<lparr>obj_word = t_o OR t_m OR t_b\<rparr>)"

definition ObjArrayChunkedTask3_debug ::
    "oop \<Rightarrow> int \<Rightarrow> int \<Rightarrow> error + ObjArrayChunkedTask" where
  "ObjArrayChunkedTask3_debug o' chunk mult =
     (if \<not> (0 \<le> chunk \<and> chunk < sint chunk_size) then Inl (AssertFailed ''chunk is sane'')
      else if \<not> (0 \<le> mult \<and> mult < sint pow_size) then Inl (AssertFailed ''pow is sane'')
      else if \<not> (o' < oop_size) then Inl (AssertFailed ''obj ref is sane'')
      else Inr (ObjArrayChunkedTask3 o' chunk mult))"

definition obj :: "ObjArrayChunkedTask \<Rightarrow> oop" where
  "obj t = drop_bit oop_shift (obj_word t) AND oop_mask"

text \<open>
  \<^verbatim>\<open>(int) (_obj >> chunk_shift) & chunk_mask\<close>: the cast binds tighter than \<^verbatim>\<open>&\<close>, so the
  shifted word is cut to an \<^verbatim>\<open>int\<close>, widened again for the mask, and the result returned as
  an \<^verbatim>\<open>int\<close>.
\<close>

definition chunk :: "ObjArrayChunkedTask \<Rightarrow> int" where
  "chunk t = to_int (to_uintptr (to_int (drop_bit chunk_shift (obj_word t))) AND chunk_mask)"

definition pow :: "ObjArrayChunkedTask \<Rightarrow> int" where
  "pow t = to_int (drop_bit pow_shift (obj_word t) AND pow_mask)"

definition is_not_chunked :: "ObjArrayChunkedTask \<Rightarrow> bool" where
  "is_not_chunked t = (obj_word t AND chunk_mask_unshift = 0)"

subsection \<open>ObjArrayChunkedTask, the fallback encoding with plain fields\<close>

record 'o FallbackTask =
  fb_obj :: 'o
  fb_chunk :: int
  fb_pow :: int

definition fb_chunk_size :: uintptr_t where "fb_chunk_size = nth_bit chunk_bits"
definition fb_pow_size :: uintptr_t where "fb_pow_size = nth_bit pow_bits"

text \<open>
  \<^verbatim>\<open>ObjArrayChunkedTask(oop o = NULL, int chunk = 0, int pow = 0)\<close>: one constructor with
  default arguments; the plain task is the call with \<open>chunk = 0\<close> and \<open>pow = 0\<close>.
\<close>

definition FallbackTask3 :: "'o \<Rightarrow> int \<Rightarrow> int \<Rightarrow> 'o FallbackTask" where
  "FallbackTask3 o' chnk pw = \<lparr>fb_obj = o', fb_chunk = chnk, fb_pow = pw\<rparr>"

definition FallbackTask3_debug :: "'o \<Rightarrow> int \<Rightarrow> int \<Rightarrow> error + 'o FallbackTask" where
  "FallbackTask3_debug o' chnk pw =
     (if \<not> (0 \<le> chnk \<and> chnk < sint fb_chunk_size) then Inl (AssertFailed ''chunk is sane'')
      else if \<not> (0 \<le> pw \<and> pw < sint fb_pow_size) then Inl (AssertFailed ''pow is sane'')
      else Inr (FallbackTask3 o' chnk pw))"

definition FallbackTask1 :: "'o \<Rightarrow> 'o FallbackTask" where
  "FallbackTask1 o' = FallbackTask3 o' 0 0"

definition fb_is_not_chunked :: "'o FallbackTask \<Rightarrow> bool" where
  "fb_is_not_chunked t = (fb_chunk t = 0)"

subsection \<open>Splitting a chunk\<close>

text \<open>
  Modelled from the spec: the header only stores a chunk \<open>\<langle>C, P\<rangle>\<close>; the split itself is done by
  the marking loop, which is not among the sources at hand. The spec (and the header's
  comment b) reads \<open>\<langle>C, P\<rangle>\<close> as the half-open interval \<open>[(C-1)*2^P, C*2^P)\<close> of array indices,
  splits it into \<open>\<langle>2*C - 1, P-1\<rangle>\<close> and \<open>\<langle>2*C, P-1\<rangle>\<close>, and stops splitting at \<open>P = 0\<close>.
\<close>

type_synonym chunk_task = "int \<times> int"

definition chunk_interval :: "chunk_task \<Rightarrow> int set" where
  "chunk_interval t = (case t of (C, P) \<Rightarrow> {(C - 1) * 2 ^ nat P ..< C * 2 ^ nat P})"

definition split_chunk :: "chunk_task \<Rightarrow> chunk_task \<times> chunk_task" where
  "split_chunk t = (case t of (C, P) \<Rightarrow> ((2 * C - 1, P - 1), (2 * C, P - 1)))"

function split_all :: "chunk_task \<Rightarrow> chunk_task list" where
  "split_all (C, P) =
     (if P \<le> 0 then [(C, P)]
      else split_all (fst (split_chunk (C, P))) @ split_all (snd (split_chunk (C, P))))"
  by pat_completeness auto
termination
  by (relation "measure (\<lambda>(C, P). nat P)") (auto simp add: split_chunk_def)

declare split_all.simps [simp del]

subsection \<open>BufferedOverflowTaskQueue\<close>

text \<open>
  The class adds the two fields \<^verbatim>\<open>_buf_empty\<close> and \<^verbatim>\<open>_elem\<close> to its base class
  \<^verbatim>\<open>OverflowTaskQueue<E, F, N>\<close>. The base class is the field \<open>taskqueue\<close>: the tasks it holds,
  oldest first.
\<close>

record 'e BufferedOverflowTaskQueue =
  buf_empty :: bool
  elem :: 'e
  taskqueue :: "'e list"

text \<open>
  Modelled from the spec: \<^verbatim>\<open>OverflowTaskQueue\<close> is declared in utilities/taskqueue.hpp, which is
  not among the sources at hand. Its \<^verbatim>\<open>push\<close> always succeeds (a full ring falls back to an
  unbounded overflow store), and the queue is empty when it holds no task.
\<close>

definition taskqueue_push :: "'e \<Rightarrow> 'e list \<Rightarrow> bool \<times> 'e list" where
  "taskqueue_push t q = (True, q @ [t])"

definition taskqueue_is_empty :: "'e list \<Rightarrow> bool" where
  "taskqueue_is_empty q = (q = [])"

text \<open>
  \<^verbatim>\<open>BufferedOverflowTaskQueue() : _buf_empty(true)\<close>. The field \<^verbatim>\<open>_elem\<close> is default-constructed;
  \<open>e0\<close> is that default value.
\<close>

definition BufferedOverflowTaskQueue0 :: "'e \<Rightarrow> 'e BufferedOverflowTaskQueue" where
  "BufferedOverflowTaskQueue0 e0 = \<lparr>buf_empty = True, elem = e0, taskqueue = []\<rparr>"

definition clear_buffer :: "'e BufferedOverflowTaskQueue \<Rightarrow> 'e BufferedOverflowTaskQueue" where
  "clear_buffer q = q\<lparr>buf_empty := True\<rparr>"

definition buffer_empty :: "'e BufferedOverflowTaskQueue \<Rightarrow> bool" where
  "buffer_empty q = buf_empty q"

definition is_empty :: "'e BufferedOverflowTaskQueue \<Rightarrow> bool" where
  "is_empty q = (taskqueue_is_empty (taskqueue q) \<and> buffer_empty q)"

text \<open>
  Modelled from the spec: \<^verbatim>\<open>push\<close> and \<^verbatim>\<open>pop_buffer\<close> are only declared in this header; their
  bodies are in the inline header, which is not among the sources at hand. By the spec, \<^verbatim>\<open>push\<close>
  places the task into an empty buffer; into an occupied one it first evicts the buffered
  task into the underlying queue and then places the new task into the buffer; it always
  succeeds. \<^verbatim>\<open>pop_buffer\<close> removes and returns the buffered task, or reports that there is none.
\<close>

definition push ::
    "'e \<Rightarrow> 'e BufferedOverflowTaskQueue \<Rightarrow> bool \<times> 'e BufferedOverflowTaskQueue" where
  "push t q =
     (if buf_empty q then (True, q\<lparr>elem := t, buf_empty := False\<rparr>)
      else (case taskqueue_push (elem q) (taskqueue q) of
              (pushed, tq) \<Rightarrow> (True, q\<lparr>taskqueue := tq, elem := t\<rparr>)))"

definition pop_buffer ::
    "'e BufferedOverflowTaskQueue \<Rightarrow> 'e option \<times> 'e BufferedOverflowTaskQueue" where
  "pop_buffer q =
     (if buf_empty q then (None, q) else (Some (elem q), q\<lparr>buf_empty := True\<rparr>))"

text \<open>\<open>n\<close> calls of \<^verbatim>\<open>pop_buffer\<close> in a row, with their results in order.\<close>

fun pop_buffer_n ::
    "nat \<Rightarrow> 'e BufferedOverflowTaskQueue \<Rightarrow> 'e option list \<times> 'e BufferedOverflowTaskQueue" where
  "pop_buffer_n 0 q = ([], q)"
| "pop_buffer_n (Suc n) q =
     (case pop_buffer q of (r, q') \<Rightarrow>
        (case pop_buffer_n n q' of (rs, q'') \<Rightarrow> (r # rs, q'')))"

subsection \<open>ParallelClaimableQueueSet\<close>

text \<open>\<^verbatim>\<open>(jint) x\<close> and \<^verbatim>\<open>(uint) x\<close>: the value modulo \<open>2^32\<close>, signed and unsigned.\<close>

definition to_jint :: "int \<Rightarrow> int" where
  "to_jint x = (x + 2 ^ 31) mod 2 ^ 32 - 2 ^ 31"

definition to_uint :: "int \<Rightarrow> int" where
  "to_uint x = x mod 2 ^ 32"

text \<open>
  The base class \<^verbatim>\<open>GenericTaskQueueSet<T, F>\<close> is the field \<open>queues\<close>: the queues of the set,
  by index. The cursor \<^verbatim>\<open>_claimed_index\<close> is a \<^verbatim>\<open>jint\<close>; \<^verbatim>\<open>_reserved\<close> exists in debug builds.
\<close>

record 'q ParallelClaimableQueueSet =
  queues :: "'q list"
  claimed_index :: int
  reserved :: int

text \<open>
  Modelled from the spec: \<^verbatim>\<open>GenericTaskQueueSet\<close> is declared in utilities/taskqueue.hpp, which
  is not among the sources at hand. \<^verbatim>\<open>size()\<close> is the number of queues, a \<^verbatim>\<open>uint\<close>, and
  \<^verbatim>\<open>queue(i)\<close> is the queue at index i; an index outside the set has no queue.
\<close>

definition size_qs :: "'q ParallelClaimableQueueSet \<Rightarrow> int" where
  "size_qs s = to_uint (int (length (queues s)))"

definition queue :: "'q ParallelClaimableQueueSet \<Rightarrow> int \<Rightarrow> error + 'q" where
  "queue s i = (if 0 \<le> i \<and> i < int (length (queues s)) then Inr (queues s ! nat i)
                else Inl OutOfBounds)"

text \<open>
  Modelled from the spec: \<^verbatim>\<open>Atomic::add\<close> is declared in runtime/atomic.hpp, which is not among
  the sources at hand. By the spec \<^verbatim>\<open>claim_next\<close> increments the cursor by one and returns the
  queue at the pre-increment index; with the code's \<^verbatim>\<open>index - 1\<close> that is an add that returns
  the updated value. Run by one thread, it stores the sum and returns it.
\<close>

definition Atomic_add :: "int \<Rightarrow> int \<Rightarrow> int \<times> int" where
  "Atomic_add v dest = (to_jint (dest + v), to_jint (dest + v))"

text \<open>
  \<^verbatim>\<open>ParallelClaimableQueueSet(int n) : GenericTaskQueueSet<T, F>(n)\<close>. The body sets
  \<^verbatim>\<open>_reserved\<close> and nothing else: \<^verbatim>\<open>_claimed_index\<close> has no initialiser, and the object is
  allocated from the C heap, so the cursor starts with whatever the memory holds, \<open>c0\<close>. The
  queues \<open>qs\<close> are those of the base class, \<open>n\<close> of them.
\<close>

definition ParallelClaimableQueueSet0 :: "'q list \<Rightarrow> int \<Rightarrow> 'q ParallelClaimableQueueSet" where
  "ParallelClaimableQueueSet0 qs c0 = \<lparr>queues = qs, claimed_index = c0, reserved = 0\<rparr>"

definition clear_claimed :: "'q ParallelClaimableQueueSet \<Rightarrow> 'q ParallelClaimableQueueSet" where
  "clear_claimed s = s\<lparr>claimed_index := 0\<rparr>"

text \<open>\<^verbatim>\<open>reserve(uint n)\<close>, as the product build runs it and with the assertion of the debug build.\<close>

definition reserve :: "int \<Rightarrow> 'q ParallelClaimableQueueSet \<Rightarrow> 'q ParallelClaimableQueueSet" where
  "reserve n s = s\<lparr>claimed_index := to_jint n, reserved := n\<rparr>"

definition reserve_debug ::
    "int \<Rightarrow> 'q ParallelClaimableQueueSet \<Rightarrow> error + 'q ParallelClaimableQueueSet" where
  "reserve_debug n s =
     (if \<not> n \<le> size_qs s then Inl (AssertFailed ''Sanity'') else Inr (reserve n s))"

definition claim_next ::
    "'q ParallelClaimableQueueSet \<Rightarrow> error + ('q option \<times> 'q ParallelClaimableQueueSet)" where
  "claim_next s =
     (let size = to_jint (size_qs s) in
      if claimed_index s \<ge> size then Inr (None, s)
      else (case Atomic_add 1 (claimed_index s) of (index, ci) \<Rightarrow>
        let s' = s\<lparr>claimed_index := ci\<rparr> in
        if index \<le> size
        then (case queue s' (to_uint (to_uint index - 1)) of
                Inl e \<Rightarrow> Inl e
              | Inr q \<Rightarrow> Inr (Some q, s'))
        else Inr (None, s')))"

text \<open>\<open>n\<close> calls of \<^verbatim>\<open>claim_next\<close> in a row by one thread, with their results in order.\<close>

fun claim_n ::
    "nat \<Rightarrow> 'q ParallelClaimableQueueSet \<Rightarrow> error + ('q option list \<times> 'q ParallelClaimableQueueSet)" where
  "claim_n 0 s = Inr ([], s)"
| "claim_n (Suc n) s =
     (case claim_next s of
        Inl e \<Rightarrow> Inl e
      | Inr (r, s') \<Rightarrow>
          (case claim_n n s' of
             Inl e \<Rightarrow> Inl e
           | Inr (rs, s'') \<Rightarrow> Inr (r # rs, s'')))"

text \<open>
  What a call of \<^verbatim>\<open>claim_next\<close> is to return when it finds the cursor at index \<open>j\<close>: the queue
  at \<open>j\<close>, or NULL past the last queue.
\<close>

definition claimed :: "'q ParallelClaimableQueueSet \<Rightarrow> nat \<Rightarrow> 'q option" where
  "claimed s j = (if j < length (queues s) then Some (queues s ! j) else None)"

text \<open>The cursor is within the set: \<^verbatim>\<open>_claimed_index <= size\<close>.\<close>

definition cursor_inv :: "'q ParallelClaimableQueueSet \<Rightarrow> bool" where
  "cursor_inv s = (claimed_index s \<le> to_jint (size_qs s))"

subsection \<open>ShenandoahCancelledTerminatorTerminator\<close>

text \<open>
  The class has no field, and neither member function reads or writes anything: each is a
  function of the state \<open>s\<close> of the program around it, which it returns as it found it.
\<close>

definition should_exit_termination :: "'s \<Rightarrow> bool \<times> 's" where
  "should_exit_termination s = (False, s)"

definition should_force_termination :: "'s \<Rightarrow> bool \<times> 's" where
  "should_force_termination s = (True, s)"

section \<open>Properties\<close>

subsection \<open>The packed task: constants and bit fields\<close>

lemmas enum_defs = chunk_bits_def pow_bits_def oop_bits_def chunk_size_def pow_size_def oop_size_def
  oop_shift_def pow_shift_def chunk_shift_def oop_mask_def pow_mask_def chunk_mask_def
  chunk_mask_unshift_def nth_bit_def right_n_bits_def fb_chunk_size_def fb_pow_size_def

lemma enum_vals: "sint chunk_size = 1024" "sint pow_size = 32" "oop_size = 2^49"
  "oop_mask = mask 49" "pow_mask = mask 5" "chunk_mask = mask 10" "chunk_mask_unshift = NOT (mask 54)"
  "chunk_shift = 54" "pow_shift = 49" "oop_shift = 0"
  "sint fb_chunk_size = 1024" "sint fb_pow_size = 32"
  by (simp_all add: enum_defs mask_eq_exp_minus_1)

lemma word64_less_exp_iff:
  fixes w :: "64 word"
  assumes "n < 64"
  shows "w < 2 ^ n \<longleftrightarrow> take_bit n w = w"
proof
  assume "w < 2 ^ n"
  then show "take_bit n w = w"
    by (simp add: take_bit_eq_mask less_mask_eq)
next
  assume h: "take_bit n w = w"
  have "w AND mask n < 2 ^ n"
    using assms by (simp add: and_mask_less')
  with h show "w < 2 ^ n"
    by (simp add: take_bit_eq_mask)
qed

lemma and_not_mask_zero_iff:
  fixes w :: "64 word"
  shows "w AND NOT (mask n) = 0 \<longleftrightarrow> take_bit n w = w"
proof
  assume h: "w AND NOT (mask n) = 0"
  have "w = (w AND mask n) OR (w AND NOT (mask n))"
    by (rule bit_word_eqI) (auto simp add: bit_simps)
  with h show "take_bit n w = w" by (simp add: take_bit_eq_mask)
next
  assume "take_bit n w = w"
  then have "w AND NOT (mask n) = take_bit n w AND NOT (mask n)" by simp
  also have "\<dots> = 0" by (rule bit_word_eqI) (auto simp add: bit_simps)
  finally show "w AND NOT (mask n) = 0" .
qed

lemma word_bits_below:
  fixes w :: "64 word"
  assumes "take_bit k w = w" and "bit w n"
  shows "n < k"
proof -
  from assms have "bit (take_bit k w) n" by simp
  then show ?thesis by (simp add: bit_take_bit_iff)
qed

lemma int_bits_below:
  fixes c :: int
  assumes "0 \<le> c" and "c < 2 ^ k" and "bit c n"
  shows "n < k"
proof -
  from assms have "bit (take_bit k c) n" by (simp add: take_bit_int_eq_self)
  then show ?thesis by (simp add: bit_take_bit_iff)
qed

lemma to_int_of_small:
  assumes "0 \<le> c" and "c < 2 ^ 31"
  shows "to_int (to_uintptr c) = c"
proof -
  have "(ucast (word_of_int c :: 64 word) :: 32 word) = word_of_int c"
    by (rule ucast_down_wi) (simp add: is_down)
  moreover have "sint (word_of_int c :: 32 word) = c"
    using assms by (simp add: sint_sbintrunc' signed_take_bit_int_eq_self)
  ultimately show ?thesis by (simp add: to_int_def to_uintptr_def)
qed

lemma packed_fields:
  fixes o' :: "64 word" and c m :: int
  assumes o: "take_bit 49 o' = o'" and c: "0 \<le> c" "c < 2 ^ 10" and m: "0 \<le> m" "m < 2 ^ 5"
  defines "W \<equiv> o' OR push_bit 49 (word_of_int m) OR push_bit 54 (word_of_int c)"
  shows "W AND mask 49 = o'"
    and "drop_bit 49 W AND mask 5 = word_of_int m"
    and "drop_bit 54 W = word_of_int c"
    and "W AND NOT (mask 54) = 0 \<longleftrightarrow> c = 0"
proof -
  note ob = word_bits_below [OF o]
  note cb = int_bits_below [OF c]
  note mb = int_bits_below [OF m]
  show "W AND mask 49 = o'"
    unfolding W_def by (rule bit_word_eqI) (auto simp add: bit_simps dest: ob)
  show "drop_bit 49 W AND mask 5 = word_of_int m"
    unfolding W_def by (rule bit_word_eqI) (auto simp add: bit_simps dest: ob mb)
  show d: "drop_bit 54 W = word_of_int c"
    unfolding W_def by (rule bit_word_eqI) (auto simp add: bit_simps dest: ob mb cb)
  have "W AND NOT (mask 54) = 0 \<longleftrightarrow> drop_bit 54 W = 0"
    by (simp add: and_not_mask_zero_iff take_bit_eq_self_iff_drop_bit_eq_0)
  also have "\<dots> \<longleftrightarrow> to_uintptr c = 0"
    by (simp add: d to_uintptr_def)
  also have "\<dots> \<longleftrightarrow> c = 0"
  proof
    assume z: "to_uintptr c = 0"
    have "to_int (to_uintptr c) = c"
      using c by (intro to_int_of_small) simp_all
    with z show "c = 0" by (simp add: to_int_def)
  qed (simp add: to_uintptr_def)
  finally show "W AND NOT (mask 54) = 0 \<longleftrightarrow> c = 0" .
qed

lemma to_int_uint_small:
  fixes w :: "64 word"
  assumes "take_bit 31 w = w"
  shows "to_int w = uint w" and "to_uintptr (uint w) = w"
proof -
  have "uint w = take_bit 31 (uint w)"
    using assms by (metis unsigned_take_bit_eq)
  moreover have "take_bit 31 (uint w) < (2::int) ^ 31"
    by (rule take_bit_int_less_exp)
  ultimately have b: "0 \<le> uint w" "uint w < 2 ^ 31"
    by simp_all
  show u: "to_uintptr (uint w) = w"
    by (simp add: to_uintptr_def)
  from to_int_of_small [OF b] u show "to_int w = uint w"
    by simp
qed

lemma chunk_eq: "chunk t = uint (drop_bit 54 (obj_word t))"
proof -
  define d where "d = drop_bit 54 (obj_word t)"
  have t10: "take_bit 10 d = d"
    unfolding d_def by (rule bit_word_eqI) (auto simp add: bit_simps dest: bit_imp_le_length)
  have t31: "take_bit 31 d = d"
    unfolding d_def by (rule bit_word_eqI) (auto simp add: bit_simps dest: bit_imp_le_length)
  have "d AND mask 10 = d"
    using t10 by (simp add: take_bit_eq_mask)
  then show ?thesis
    by (simp add: chunk_def enum_vals to_int_uint_small [OF t31] flip: d_def)
qed

lemma pow_eq: "pow t = uint (take_bit 5 (drop_bit 49 (obj_word t)))"
proof -
  define d where "d = take_bit 5 (drop_bit 49 (obj_word t))"
  have t31: "take_bit 31 d = d"
    unfolding d_def by (rule bit_word_eqI) (auto simp add: bit_simps)
  show ?thesis
    by (simp add: pow_def enum_vals to_int_uint_small [OF t31] flip: d_def take_bit_eq_mask)
qed

lemma obj_eq: "obj t = take_bit 49 (obj_word t)"
  by (simp add: obj_def enum_vals take_bit_eq_mask)

lemma is_not_chunked_eq: "is_not_chunked t \<longleftrightarrow> obj_word t < 2 ^ 54"
proof -
  have "(obj_word t < 2 ^ 54) = (take_bit 54 (obj_word t) = obj_word t)"
    by (rule word64_less_exp_iff) simp
  then show ?thesis
    by (simp only: is_not_chunked_def enum_vals and_not_mask_zero_iff)
qed

lemma chunk_zero_iff: "chunk t = 0 \<longleftrightarrow> obj_word t < 2 ^ 54"
proof -
  have "(obj_word t < 2 ^ 54) = (take_bit 54 (obj_word t) = obj_word t)"
    by (rule word64_less_exp_iff) simp
  then show ?thesis
    by (simp only: chunk_eq take_bit_eq_self_iff_drop_bit_eq_0 uint_0_iff)
qed

lemma plain_word: "obj_word (ObjArrayChunkedTask1 r) = r"
  by (simp add: ObjArrayChunkedTask1_def enum_vals)

lemma chunked_word:
  "obj_word (ObjArrayChunkedTask3 o' c m) =
     o' OR push_bit 49 (word_of_int m) OR push_bit 54 (word_of_int c)"
  by (simp add: ObjArrayChunkedTask3_def enum_vals to_uintptr_def)

lemma uint_word_of_small:
  assumes "0 \<le> c" and "c < 2 ^ 10"
  shows "uint (word_of_int c :: 64 word) = c"
  using assms by (simp add: uint_word_of_int take_bit_int_eq_self)

lemma chunked_accessors:
  assumes "o' < 2 ^ 49" and "0 \<le> c" and "c < 2 ^ 10" and "0 \<le> m" and "m < 2 ^ 5"
  shows "ObjArrayChunkedTask3_debug o' c m = Inr (ObjArrayChunkedTask3 o' c m)
       \<and> obj (ObjArrayChunkedTask3 o' c m) = o'
       \<and> chunk (ObjArrayChunkedTask3 o' c m) = c
       \<and> pow (ObjArrayChunkedTask3 o' c m) = m"
proof -
  have "(o' < 2 ^ 49) = (take_bit 49 o' = o')"
    by (rule word64_less_exp_iff) simp
  with assms have o: "take_bit 49 o' = o'" by simp
  note f = packed_fields [OF o assms(2-5)]
  have "ObjArrayChunkedTask3_debug o' c m = Inr (ObjArrayChunkedTask3 o' c m)"
    using assms by (simp add: ObjArrayChunkedTask3_debug_def enum_vals)
  moreover have "obj (ObjArrayChunkedTask3 o' c m) = o'"
    by (simp only: obj_eq chunked_word f(1) [unfolded take_bit_eq_mask [symmetric]])
  moreover have "chunk (ObjArrayChunkedTask3 o' c m) = c"
    using assms by (simp only: chunk_eq chunked_word f(3)) (simp add: uint_word_of_int take_bit_int_eq_self)
  moreover have "pow (ObjArrayChunkedTask3 o' c m) = m"
    using assms
    by (simp only: pow_eq chunked_word f(2) [unfolded take_bit_eq_mask [symmetric]])
       (simp add: uint_word_of_int take_bit_int_eq_self)
  ultimately show ?thesis by simp
qed


lemma plain_accessors:
  assumes "o' < 2 ^ 49"
  shows "obj (ObjArrayChunkedTask1 o') = o'"
    and "chunk (ObjArrayChunkedTask1 o') = 0"
    and "pow (ObjArrayChunkedTask1 o') = 0"
    and "is_not_chunked (ObjArrayChunkedTask1 o')"
proof -
  have "(o' < 2 ^ 49) = (take_bit 49 o' = o')"
    by (rule word64_less_exp_iff) simp
  with assms have o: "take_bit 49 o' = o'" by simp
  then have d: "drop_bit 49 o' = 0"
    by (simp add: take_bit_eq_self_iff_drop_bit_eq_0)
  have "take_bit 54 o' = o'"
    by (rule bit_word_eqI) (auto simp add: bit_simps dest: word_bits_below [OF o])
  moreover have "(o' < 2 ^ 54) = (take_bit 54 o' = o')"
    by (rule word64_less_exp_iff) simp
  ultimately have l: "o' < 2 ^ 54" by simp
  show "obj (ObjArrayChunkedTask1 o') = o'"
    by (simp only: obj_eq plain_word o)
  show "chunk (ObjArrayChunkedTask1 o') = 0"
    using l by (simp only: chunk_zero_iff plain_word)
  show "pow (ObjArrayChunkedTask1 o') = 0"
    by (simp add: pow_eq plain_word d)
  show "is_not_chunked (ObjArrayChunkedTask1 o')"
    using l by (simp only: is_not_chunked_eq plain_word)
qed

lemma chunked_is_not_chunked:
  assumes "o' < 2 ^ 49" and "0 \<le> c" and "c < 2 ^ 10" and "0 \<le> m" and "m < 2 ^ 5"
  shows "is_not_chunked (ObjArrayChunkedTask3 o' c m) \<longleftrightarrow> c = 0"
proof -
  have "(o' < 2 ^ 49) = (take_bit 49 o' = o')"
    by (rule word64_less_exp_iff) simp
  with assms have o: "take_bit 49 o' = o'" by simp
  show ?thesis
    by (simp only: is_not_chunked_def chunked_word enum_vals packed_fields(4) [OF o assms(2-5)])
qed

subsection \<open>ObjArrayChunkedTask: constructors and accessors\<close>

text \<open>
  C4, as the code has it. In the packed encoding the plain constructor stores the reference
  unchanged, so \<^verbatim>\<open>is_not_chunked()\<close> is true, and \<^verbatim>\<open>chunk()\<close> is 0, exactly when the numeric
  value of the reference is below \<open>2^54\<close> (its ten chunk bits are clear); that covers every
  reference within the 49-bit budget of the encoding. In the fallback encoding both hold for
  every reference.
\<close>

theorem plain_task_is_not_chunked:
  "is_not_chunked (ObjArrayChunkedTask1 r) = (r < 2 ^ 54)
   \<and> (chunk (ObjArrayChunkedTask1 r) = 0) = (r < 2 ^ 54)
   \<and> fb_is_not_chunked (FallbackTask1 r')
   \<and> fb_chunk (FallbackTask1 r') = 0"
  by (simp only: is_not_chunked_eq chunk_zero_iff plain_word)
     (simp add: fb_is_not_chunked_def FallbackTask1_def FallbackTask3_def)

text \<open>
  C4 as stated fails in the packed encoding: the reference with numeric value \<open>2^54\<close>, built by
  the plain constructor, reads as a chunked task with chunk 1.
\<close>

theorem plain_task_high_address_counterexample:
  "\<not> is_not_chunked (ObjArrayChunkedTask1 (2 ^ 54))
   \<and> chunk (ObjArrayChunkedTask1 (2 ^ 54)) = 1"
  by (simp add: is_not_chunked_def chunk_def ObjArrayChunkedTask1_def enum_defs
      to_int_def to_uintptr_def)

text \<open>
  C5: for a reference below \<open>2^49\<close>, a chunk in \<open>[0, 2^10)\<close> and a pow in \<open>[0, 2^5)\<close>, the
  accessors \<^verbatim>\<open>obj()\<close>, \<^verbatim>\<open>chunk()\<close> and \<^verbatim>\<open>pow()\<close> of the task built by the packed chunked
  constructor return exactly the three constructor arguments.
\<close>

theorem packed_roundtrip:
  assumes "o' < 2 ^ 49" and "0 \<le> c" and "c < 2 ^ 10" and "0 \<le> m" and "m < 2 ^ 5"
  shows "obj (ObjArrayChunkedTask3 o' c m) = o'
       \<and> chunk (ObjArrayChunkedTask3 o' c m) = c
       \<and> pow (ObjArrayChunkedTask3 o' c m) = m"
  using chunked_accessors [OF assms] by simp

text \<open>The round trip at the largest chunk and pow.\<close>

theorem packed_roundtrip_witness:
  "(4660 :: 64 word) < 2 ^ 49 \<and> (0::int) \<le> 1023 \<and> (1023::int) < 2 ^ 10 \<and> (0::int) \<le> 31 \<and> (31::int) < 2 ^ 5
   \<and> obj (ObjArrayChunkedTask3 4660 1023 31) = 4660
   \<and> chunk (ObjArrayChunkedTask3 4660 1023 31) = 1023
   \<and> pow (ObjArrayChunkedTask3 4660 1023 31) = 31"
  using packed_roundtrip [of 4660 1023 31] by simp

text \<open>
  C6: for a reference below \<open>2^49\<close>, a chunk in \<open>[0, 2^10)\<close> and a pow in \<open>[0, 2^5)\<close>, the
  packed encoding and the fallback encoding agree on \<^verbatim>\<open>obj()\<close>, \<^verbatim>\<open>chunk()\<close>, \<^verbatim>\<open>pow()\<close> and
  \<^verbatim>\<open>is_not_chunked()\<close>, for the plain task and for the chunked task built from the same
  arguments; the debug builds of both constructors accept these arguments.
\<close>

theorem encodings_agree:
  assumes "o' < 2 ^ 49" and "0 \<le> c" and "c < 2 ^ 10" and "0 \<le> m" and "m < 2 ^ 5"
  shows "obj (ObjArrayChunkedTask1 o') = fb_obj (FallbackTask1 o')
       \<and> chunk (ObjArrayChunkedTask1 o') = fb_chunk (FallbackTask1 o')
       \<and> pow (ObjArrayChunkedTask1 o') = fb_pow (FallbackTask1 o')
       \<and> is_not_chunked (ObjArrayChunkedTask1 o') = fb_is_not_chunked (FallbackTask1 o')
       \<and> obj (ObjArrayChunkedTask3 o' c m) = fb_obj (FallbackTask3 o' c m)
       \<and> chunk (ObjArrayChunkedTask3 o' c m) = fb_chunk (FallbackTask3 o' c m)
       \<and> pow (ObjArrayChunkedTask3 o' c m) = fb_pow (FallbackTask3 o' c m)
       \<and> is_not_chunked (ObjArrayChunkedTask3 o' c m) = fb_is_not_chunked (FallbackTask3 o' c m)
       \<and> map_sum id obj (ObjArrayChunkedTask3_debug o' c m) = map_sum id fb_obj (FallbackTask3_debug o' c m)"
  using plain_accessors [OF assms(1)] chunked_accessors [OF assms] chunked_is_not_chunked [OF assms] assms
  by (simp add: fb_is_not_chunked_def FallbackTask1_def FallbackTask3_def FallbackTask3_debug_def enum_vals)

text \<open>The two encodings on one chunked and one plain task.\<close>

theorem encodings_agree_witness:
  "(4660 :: 64 word) < 2 ^ 49 \<and> (0::int) \<le> 7 \<and> (7::int) < 2 ^ 10 \<and> (0::int) \<le> 3 \<and> (3::int) < 2 ^ 5
   \<and> obj (ObjArrayChunkedTask3 4660 7 3) = fb_obj (FallbackTask3 (4660 :: 64 word) 7 3)
   \<and> chunk (ObjArrayChunkedTask3 4660 7 3) = fb_chunk (FallbackTask3 (4660 :: 64 word) 7 3)
   \<and> pow (ObjArrayChunkedTask3 4660 7 3) = fb_pow (FallbackTask3 (4660 :: 64 word) 7 3)
   \<and> is_not_chunked (ObjArrayChunkedTask3 4660 7 3) = fb_is_not_chunked (FallbackTask3 (4660 :: 64 word) 7 3)
   \<and> is_not_chunked (ObjArrayChunkedTask1 4660) = fb_is_not_chunked (FallbackTask1 (4660 :: 64 word))"
  using encodings_agree [of 4660 7 3] by simp

text \<open>
  C7: the assertions of the chunked constructor all hold if and only if
  \<open>0 \<le> chunk < 2^10\<close>, \<open>0 \<le> mult < 2^5\<close> and, in the packed encoding, the reference is below
  \<open>2^49\<close>; any argument outside these ranges makes an assertion fail.
\<close>

theorem chunked_ctor_asserts:
  "(ObjArrayChunkedTask3_debug o' c m = Inr (ObjArrayChunkedTask3 o' c m))
      = (0 \<le> c \<and> c < 2 ^ 10 \<and> 0 \<le> m \<and> m < 2 ^ 5 \<and> o' < 2 ^ 49)
   \<and> isl (ObjArrayChunkedTask3_debug o' c m)
      = (\<not> (0 \<le> c \<and> c < 2 ^ 10 \<and> 0 \<le> m \<and> m < 2 ^ 5 \<and> o' < 2 ^ 49))
   \<and> (FallbackTask3_debug r c m = Inr (FallbackTask3 r c m))
      = (0 \<le> c \<and> c < 2 ^ 10 \<and> 0 \<le> m \<and> m < 2 ^ 5)
   \<and> isl (FallbackTask3_debug r c m)
      = (\<not> (0 \<le> c \<and> c < 2 ^ 10 \<and> 0 \<le> m \<and> m < 2 ^ 5))"
  by (auto simp add: ObjArrayChunkedTask3_debug_def FallbackTask3_debug_def enum_vals)


subsection \<open>Splitting a chunk\<close>

lemma upto_append: "i \<le> j + 1 \<Longrightarrow> j \<le> k \<Longrightarrow> [i..j] @ [j+1..k] = [i..k]"
  by (metis upto_split2 upto_empty append_Nil append_Nil2 le_less linorder_not_less add.commute zle_add1_eq_le upto_rec1)


lemma split_all_nat:
  "split_all (C, int n) = map (\<lambda>k. (k, 0)) [(C - 1) * 2 ^ n + 1 .. C * 2 ^ n]"
proof (induction n arbitrary: C)
  case 0
  show ?case by (simp add: split_all.simps [of C 0] upto_rec1)
next
  case (Suc n)
  define h :: int where "h = 2 ^ n"
  have hpos: "0 < h" by (simp add: h_def)
  have s: "int (Suc n) - 1 = int n" by simp
  have "split_all (C, int (Suc n)) = split_all (2 * C - 1, int n) @ split_all (2 * C, int n)"
    by (simp add: split_all.simps [of C "int (Suc n)"] split_chunk_def s del: of_nat_Suc)
  also have "\<dots> = map (\<lambda>k. (k, 0))
      ([(2 * C - 1 - 1) * h + 1 .. (2 * C - 1) * h] @ [(2 * C - 1) * h + 1 .. 2 * C * h])"
    by (simp add: Suc.IH h_def)
  also have "[(2 * C - 1 - 1) * h + 1 .. (2 * C - 1) * h] @ [(2 * C - 1) * h + 1 .. 2 * C * h]
      = [(2 * C - 1 - 1) * h + 1 .. 2 * C * h]"
    using hpos by (intro upto_append) (simp_all add: algebra_simps)
  also have "(2 * C - 1 - 1) * h = (C - 1) * 2 ^ Suc n"
    by (simp add: h_def algebra_simps)
  also have "2 * C * h = C * 2 ^ Suc n"
    by (simp add: h_def algebra_simps)
  finally show ?case .
qed

lemma split_all_eq:
  assumes "0 \<le> P"
  shows "split_all (C, P) = map (\<lambda>k. (k, 0)) [(C - 1) * 2 ^ nat P + 1 .. C * 2 ^ nat P]"
  using split_all_nat [of C "nat P"] assms by simp

lemma unit_interval: "chunk_interval (k, 0) = {k - 1}"
  by (auto simp add: chunk_interval_def)

lemma shift_union: "(\<Union>k\<in>{a+1..b}. {k - 1}) = {a..<b::int}"
proof -
  have "\<And>x. a \<le> x \<Longrightarrow> x < b \<Longrightarrow> \<exists>k\<in>{a + 1..b}. x = k - 1"
    by (rule_tac x = "x + 1" in bexI) simp_all
  then show ?thesis by auto
qed


lemma split_chunk_intervals:
  assumes "1 \<le> P"
  shows "chunk_interval (fst (split_chunk (C, P)))
           = {(2 * C - 2) * 2 ^ nat (P - 1) ..< (2 * C - 1) * 2 ^ nat (P - 1)}"
    and "chunk_interval (snd (split_chunk (C, P)))
           = {(2 * C - 1) * 2 ^ nat (P - 1) ..< 2 * C * 2 ^ nat (P - 1)}"
    and "chunk_interval (C, P) = {(2 * C - 2) * 2 ^ nat (P - 1) ..< 2 * C * 2 ^ nat (P - 1)}"
proof -
  have "nat P = Suc (nat (P - 1))"
    using assms by simp
  then have e: "(2::int) ^ nat P = 2 * 2 ^ nat (P - 1)"
    by simp
  show "chunk_interval (fst (split_chunk (C, P)))
           = {(2 * C - 2) * 2 ^ nat (P - 1) ..< (2 * C - 1) * 2 ^ nat (P - 1)}"
    by (simp add: chunk_interval_def split_chunk_def)
  show "chunk_interval (snd (split_chunk (C, P)))
           = {(2 * C - 1) * 2 ^ nat (P - 1) ..< 2 * C * 2 ^ nat (P - 1)}"
    by (simp add: chunk_interval_def split_chunk_def)
  show "chunk_interval (C, P) = {(2 * C - 2) * 2 ^ nat (P - 1) ..< 2 * C * 2 ^ nat (P - 1)}"
    by (simp add: chunk_interval_def e algebra_simps)
qed

lemma split_all_length: "0 \<le> P \<Longrightarrow> length (split_all (C, P)) = 2 ^ nat P"
proof -
  assume "0 \<le> P"
  have "C * 2 ^ nat P - ((C - 1) * 2 ^ nat P + 1) + 1 = (2::int) ^ nat P"
    by (simp add: algebra_simps)
  then have "nat (C * 2 ^ nat P - ((C - 1) * 2 ^ nat P + 1) + 1) = 2 ^ nat P"
    by (simp add: nat_power_eq)
  with \<open>0 \<le> P\<close> show ?thesis
    by (simp only: split_all_eq length_map length_upto)
qed

lemma split_all_nth:
  assumes "0 \<le> P" and "i < length (split_all (C, P))"
  shows "split_all (C, P) ! i = ((C - 1) * 2 ^ nat P + 1 + int i, 0)"
proof -
  have "i < 2 ^ nat P"
    using assms by (simp add: split_all_length)
  then have "int i < int (2 ^ nat P)"
    by (simp only: of_nat_less_iff)
  moreover have "int (2 ^ nat P) = (2::int) ^ nat P"
    by simp
  ultimately have "int i + 1 \<le> 2 ^ nat P"
    by linarith
  moreover have "C * 2 ^ nat P = (C - 1) * 2 ^ nat P + 2 ^ nat P"
    by (simp add: algebra_simps)
  ultimately have "(C - 1) * 2 ^ nat P + 1 + int i \<le> C * 2 ^ nat P"
    by linarith
  then have "[(C - 1) * 2 ^ nat P + 1 .. C * 2 ^ nat P] ! i = (C - 1) * 2 ^ nat P + 1 + int i"
    by (rule nth_upto)
  with assms show ?thesis
    by (simp add: split_all_eq)
qed

text \<open>
  C1: for a chunk \<open>\<langle>C, P\<rangle>\<close> with \<open>C \<ge> 1\<close> and \<open>P \<ge> 1\<close>, the two halves \<open>\<langle>2*C - 1, P-1\<rangle>\<close> and
  \<open>\<langle>2*C, P-1\<rangle>\<close> cover \<open>[(2C-2)*2^(P-1), (2C-1)*2^(P-1))\<close> and \<open>[(2C-1)*2^(P-1), 2C*2^(P-1))\<close>;
  their union is the interval of \<open>\<langle>C, P\<rangle>\<close> and they are disjoint. Splitting down to power 0
  gives exactly \<open>2^P\<close> chunks, each of power 0 with an interval of one element, pairwise
  disjoint, whose union is the interval of \<open>\<langle>C, P\<rangle>\<close>.
\<close>

theorem split_partitions:
  assumes "1 \<le> C" and "1 \<le> P"
  shows "chunk_interval (fst (split_chunk (C, P)))
           = {(2 * C - 2) * 2 ^ nat (P - 1) ..< (2 * C - 1) * 2 ^ nat (P - 1)}
       \<and> chunk_interval (snd (split_chunk (C, P)))
           = {(2 * C - 1) * 2 ^ nat (P - 1) ..< 2 * C * 2 ^ nat (P - 1)}
       \<and> chunk_interval (fst (split_chunk (C, P))) \<union> chunk_interval (snd (split_chunk (C, P)))
           = chunk_interval (C, P)
       \<and> chunk_interval (fst (split_chunk (C, P))) \<inter> chunk_interval (snd (split_chunk (C, P))) = {}
       \<and> length (split_all (C, P)) = 2 ^ nat P
       \<and> (\<forall>t \<in> set (split_all (C, P)). snd t = 0 \<and> card (chunk_interval t) = 1)
       \<and> (\<Union>t \<in> set (split_all (C, P)). chunk_interval t) = chunk_interval (C, P)
       \<and> (\<forall>i < length (split_all (C, P)). \<forall>j < length (split_all (C, P)).
            i \<noteq> j \<longrightarrow>
            chunk_interval (split_all (C, P) ! i) \<inter> chunk_interval (split_all (C, P) ! j) = {})"
proof -
  from assms have p: "0 \<le> P" by simp
  note iv = split_chunk_intervals [OF assms(2), of C]
  have h: "(2 * C - 2) * 2 ^ nat (P - 1) \<le> (2 * C - 1) * 2 ^ nat (P - 1)"
          "(2 * C - 1) * 2 ^ nat (P - 1) \<le> 2 * C * 2 ^ nat (P - 1)"
    by (simp_all add: algebra_simps)
  have u: "chunk_interval (fst (split_chunk (C, P))) \<union> chunk_interval (snd (split_chunk (C, P)))
           = chunk_interval (C, P)"
    unfolding iv using h by (rule ivl_disj_un_two)
  have d: "chunk_interval (fst (split_chunk (C, P))) \<inter> chunk_interval (snd (split_chunk (C, P))) = {}"
    unfolding iv(1,2) by (rule ivl_disj_int_two)
  have s: "\<forall>t \<in> set (split_all (C, P)). snd t = 0 \<and> card (chunk_interval t) = 1"
    using p by (auto simp add: split_all_eq unit_interval)
  have "(\<Union>t \<in> set (split_all (C, P)). chunk_interval t)
          = (\<Union>k \<in> {(C - 1) * 2 ^ nat P + 1 .. C * 2 ^ nat P}. {k - 1})"
    using p by (simp add: split_all_eq unit_interval)
  also have "\<dots> = chunk_interval (C, P)"
    by (simp only: shift_union) (simp add: chunk_interval_def)
  finally have c: "(\<Union>t \<in> set (split_all (C, P)). chunk_interval t) = chunk_interval (C, P)" .
  have n: "\<forall>i < length (split_all (C, P)). \<forall>j < length (split_all (C, P)).
            i \<noteq> j \<longrightarrow>
            chunk_interval (split_all (C, P) ! i) \<inter> chunk_interval (split_all (C, P) ! j) = {}"
    using p by (simp add: split_all_nth unit_interval)
  from iv(1,2) u d split_all_length [OF p] s c n show ?thesis
    by (intro conjI)
qed

text \<open>The chunk \<open>\<langle>1, 2\<rangle>\<close>: four elements, split into four chunks.\<close>

theorem split_partitions_witness:
  "(1::int) \<le> 1 \<and> (1::int) \<le> 2
   \<and> length (split_all (1, 2)) = 4
   \<and> (\<Union>t \<in> set (split_all (1, 2)). chunk_interval t) = {0 ..< 4}
   \<and> chunk_interval (1, 1) \<union> chunk_interval (2, 1) = chunk_interval (1, 2)"
  using split_partitions [of 1 2]
  by (simp add: split_chunk_def chunk_interval_def)

subsection \<open>BufferedOverflowTaskQueue\<close>

lemma pop_buffer_n_empty: "buf_empty q \<Longrightarrow> pop_buffer_n n q = (replicate n None, q)"
  by (induction n) (simp_all add: pop_buffer_def)

text \<open>
  C3: starting from an empty buffer and an empty underlying queue, after \<^verbatim>\<open>push(a)\<close>, \<^verbatim>\<open>push(b)\<close>,
  \<^verbatim>\<open>push(c)\<close> the next \<^verbatim>\<open>pop_buffer\<close> returns c, a and b are in the underlying queue, and no
  later \<^verbatim>\<open>pop_buffer\<close> returns anything; a push into an occupied buffer evicts the task
  buffered before into the underlying queue and buffers the new one.
\<close>

theorem push_evicts_previous:
  fixes q :: "'e BufferedOverflowTaskQueue" and a b c :: 'e
  assumes "buf_empty q" and "taskqueue q = []"
  defines "q3 \<equiv> snd (push c (snd (push b (snd (push a q)))))"
  shows "fst (push a q) \<and> fst (push b (snd (push a q))) \<and> fst (push c (snd (push b (snd (push a q)))))
       \<and> fst (pop_buffer q3) = Some c
       \<and> taskqueue q3 = [a, b]
       \<and> taskqueue (snd (pop_buffer q3)) = [a, b]
       \<and> pop_buffer_n n (snd (pop_buffer q3)) = (replicate n None, snd (pop_buffer q3))
       \<and> (\<forall>t q'. \<not> buf_empty q' \<longrightarrow>
            snd (push t q') = q'\<lparr>taskqueue := taskqueue q' @ [elem q'], elem := t\<rparr>)"
proof -
  have e: "buf_empty (snd (pop_buffer q3))"
    by (simp add: pop_buffer_def)
  show ?thesis
    using assms(1,2) pop_buffer_n_empty [OF e, of n]
    by (simp add: q3_def push_def pop_buffer_def taskqueue_push_def)
qed

text \<open>Three pushes into a freshly constructed queue of numbers.\<close>

theorem push_evicts_previous_witness:
  "buf_empty (BufferedOverflowTaskQueue0 (0::nat)) \<and> taskqueue (BufferedOverflowTaskQueue0 (0::nat)) = []
   \<and> fst (pop_buffer (snd (push 3 (snd (push 2 (snd (push 1 (BufferedOverflowTaskQueue0 (0::nat)))))))))
       = Some 3
   \<and> taskqueue (snd (push 3 (snd (push 2 (snd (push 1 (BufferedOverflowTaskQueue0 (0::nat)))))))) = [1, 2]"
  using push_evicts_previous [of "BufferedOverflowTaskQueue0 (0::nat)" 1 2 3 0]
  by (simp add: BufferedOverflowTaskQueue0_def push_def pop_buffer_def taskqueue_push_def)

subsection \<open>ShenandoahCancelledTerminatorTerminator\<close>

text \<open>
  C9: \<^verbatim>\<open>should_force_termination()\<close> of ShenandoahCancelledTerminatorTerminator returns true and
  \<^verbatim>\<open>should_exit_termination()\<close> returns false, on every call and in every state; neither
  changes the state.
\<close>

theorem cancelled_terminator_constant:
  "should_force_termination s = (True, s) \<and> should_exit_termination s = (False, s)"
  by (simp add: should_force_termination_def should_exit_termination_def)

subsection \<open>ParallelClaimableQueueSet\<close>

lemma to_jint_id: "- (2 ^ 31) \<le> x \<Longrightarrow> x < 2 ^ 31 \<Longrightarrow> to_jint x = x"
  by (simp add: to_jint_def)

lemma to_uint_id: "0 \<le> x \<Longrightarrow> x < 2 ^ 32 \<Longrightarrow> to_uint x = x"
  by (simp add: to_uint_def)

lemma size_small:
  assumes "length (queues s) < 2 ^ 31"
  shows "to_jint (size_qs s) = int (length (queues s))"
proof -
  have "int (length (queues s)) < 2 ^ 31"
    using assms by (metis of_nat_less_iff of_nat_numeral of_nat_power)
  then show ?thesis
    by (simp add: size_qs_def to_uint_id to_jint_id)
qed

lemma size_qs_updates:
  "size_qs (s\<lparr>claimed_index := c\<rparr>) = size_qs s"
  "size_qs (s\<lparr>reserved := r\<rparr>) = size_qs s"
  by (simp_all add: size_qs_def)

lemma claim_next_exhausted:
  assumes "length (queues s) < 2 ^ 31" and "int (length (queues s)) \<le> claimed_index s"
  shows "claim_next s = Inr (None, s)"
  using assms by (simp add: claim_next_def size_small)

lemma claim_next_in_range:
  assumes "length (queues s) < 2 ^ 31" and "claimed_index s = int k" and "k < length (queues s)"
  shows "claim_next s = Inr (Some (queues s ! k), s\<lparr>claimed_index := int k + 1\<rparr>)"
proof -
  have b: "int (length (queues s)) < 2 ^ 31"
    using assms(1) by (metis of_nat_less_iff of_nat_numeral of_nat_power)
  have k: "int k + 1 \<le> int (length (queues s))"
    using assms(3) by simp
  have j: "to_jint (int k + 1) = int k + 1"
    using b k by (intro to_jint_id) simp_all
  have u: "to_uint (int k + 1) = int k + 1"
    using b k by (intro to_uint_id) simp_all
  have u': "to_uint (int k) = int k"
    using b k by (intro to_uint_id) simp_all
  show ?thesis
    using assms(2,3) k
    by (simp add: claim_next_def size_small [OF assms(1)] Atomic_add_def j u u' queue_def)
qed


lemma claim_n_exhausted:
  assumes "length (queues s) < 2 ^ 31" and "int (length (queues s)) \<le> claimed_index s"
  shows "claim_n m s = Inr (replicate m None, s)"
  by (induction m) (simp_all add: claim_next_exhausted [OF assms])

lemma claim_n_from:
  assumes "length (queues s) < 2 ^ 31" and "claimed_index s = int k" and "k \<le> length (queues s)"
  shows "claim_n m s =
           Inr (map (claimed s) [k ..< k + m],
                s\<lparr>claimed_index := int (min (length (queues s)) (k + m))\<rparr>)"
  using assms
proof (induction m arbitrary: s k)
  case 0
  then show ?case by simp
next
  case (Suc m)
  show ?case
  proof (cases "k < length (queues s)")
    case True
    define s1 where "s1 = s\<lparr>claimed_index := int k + 1\<rparr>"
    have c: "claim_next s = Inr (Some (queues s ! k), s1)"
      unfolding s1_def using Suc.prems(1,2) True by (rule claim_next_in_range)
    have q: "queues s1 = queues s" by (simp add: s1_def)
    have "claim_n m s1 =
           Inr (map (claimed s1) [Suc k ..< Suc k + m],
                s1\<lparr>claimed_index := int (min (length (queues s1)) (Suc k + m))\<rparr>)"
      using Suc.prems(1) True by (intro Suc.IH) (simp_all add: s1_def)
    moreover have "claimed s1 = claimed s"
      by (simp add: claimed_def q fun_eq_iff)
    moreover have "[k ..< k + Suc m] = k # [Suc k ..< Suc k + m]"
      by (simp add: upt_conv_Cons)
    moreover have "claimed s k = Some (queues s ! k)"
      using True by (simp add: claimed_def)
    ultimately show ?thesis
      by (simp add: c q) (simp add: s1_def)
  next
    case False
    with Suc.prems have e: "k = length (queues s)" by simp
    then have x: "int (length (queues s)) \<le> claimed_index s"
      using Suc.prems(2) by simp
    have "map (claimed s) [k ..< k + Suc m] = map (\<lambda>_. None) [k ..< k + Suc m]"
      unfolding e by (rule map_cong) (auto simp add: claimed_def)
    then have "map (claimed s) [k ..< k + Suc m] = replicate (Suc m) None"
      by (simp only: map_replicate_const length_upt) simp
    moreover have "s\<lparr>claimed_index := int (min (length (queues s)) (k + Suc m))\<rparr> = s"
      using Suc.prems(2) e by simp
    ultimately show ?thesis
      by (simp only: claim_n_exhausted [OF Suc.prems(1) x])
  qed
qed


lemma to_uint_pred_negative:
  assumes "- (2 ^ 31) \<le> c" and "c < 0"
  shows "to_uint (to_uint (c + 1) - 1) = c + 2 ^ 32"
proof -
  have "to_uint (to_uint (c + 1) - 1) = (c + 1 - 1) mod 2 ^ 32"
    unfolding to_uint_def by (rule mod_diff_left_eq)
  also have "\<dots> = (c + 2 ^ 32) mod 2 ^ 32"
    by simp
  also have "\<dots> = c + 2 ^ 32"
    using assms by (intro mod_pos_pos_trivial) simp_all
  finally show ?thesis .
qed

lemma claim_next_negative:
  assumes "length (queues s) < 2 ^ 31" and "- (2 ^ 31) \<le> claimed_index s" and "claimed_index s < 0"
  shows "claim_next s = Inl OutOfBounds"
proof -
  have b: "int (length (queues s)) < 2 ^ 31"
    using assms(1) by (metis of_nat_less_iff of_nat_numeral of_nat_power)
  have j: "to_jint (claimed_index s + 1) = claimed_index s + 1"
    using assms(2,3) by (intro to_jint_id) simp_all
  have "\<not> claimed_index s + 2 ^ 32 < int (length (queues s))"
    using assms(2) b by simp
  then show ?thesis
    using assms(3)
    by (simp add: claim_next_def size_small [OF assms(1)] Atomic_add_def j queue_def
        to_uint_pred_negative [OF assms(2,3)])
qed

lemma claim_next_cases:
  assumes "length (queues s) < 2 ^ 31" and "- (2 ^ 31) \<le> claimed_index s"
  shows "claim_next s =
    (if claimed_index s < 0 then Inl OutOfBounds
     else if claimed_index s < int (length (queues s))
       then Inr (Some (queues s ! nat (claimed_index s)), s\<lparr>claimed_index := claimed_index s + 1\<rparr>)
     else Inr (None, s))"
proof -
  consider "claimed_index s < 0"
    | "0 \<le> claimed_index s" "claimed_index s < int (length (queues s))"
    | "int (length (queues s)) \<le> claimed_index s"
    by linarith
  then show ?thesis
  proof cases
    case 1
    with assms show ?thesis by (simp add: claim_next_negative)
  next
    case 2
    then have "claimed_index s = int (nat (claimed_index s))" "nat (claimed_index s) < length (queues s)"
      by simp_all
    from claim_next_in_range [OF assms(1) this] 2 show ?thesis by simp
  next
    case 3
    then have "\<not> claimed_index s < 0" "\<not> claimed_index s < int (length (queues s))"
      by simp_all
    with claim_next_exhausted [OF assms(1) 3] show ?thesis by simp
  qed
qed

lemma claimed_all: "map (claimed s) [0 ..< length (queues s)] = map Some (queues s)"
proof -
  have "map (claimed s) [0 ..< length (queues s)] = map (\<lambda>j. Some (queues s ! j)) [0 ..< length (queues s)]"
    by (rule map_cong) (simp_all add: claimed_def)
  also have "\<dots> = map Some (map ((!) (queues s)) [0 ..< length (queues s)])"
    by simp
  finally show ?thesis by (simp only: map_nth)
qed

lemma claimed_prefix:
  assumes "k \<le> length (queues s)"
  shows "map (claimed s) [0 ..< k] = map Some (take k (queues s))"
proof -
  have "map (claimed s) [0 ..< k] = take k (map (claimed s) [0 ..< length (queues s)])"
    using assms by (simp add: take_map take_upt)
  then show ?thesis by (simp only: claimed_all take_map)
qed

text \<open>
  C2, as the code has it. For a queue set of size N (the constructor's \<^verbatim>\<open>int\<close> argument, so
  below \<open>2^31\<close>) with no reservation, once \<^verbatim>\<open>clear_claimed()\<close> has set the cursor, and one thread
  calling: the first N calls of \<^verbatim>\<open>claim_next()\<close> return the queues at indices 0 to N-1 in
  order, each once, the call after them returns NULL, and after another \<^verbatim>\<open>clear_claimed()\<close>
  the same results repeat. After k calls the cursor is k, and a call that returns a queue
  returns the one at the cursor's value before the call and moves the cursor by one.
\<close>

theorem claim_next_sequence:
  fixes s :: "'q ParallelClaimableQueueSet"
  assumes "length (queues s) < 2 ^ 31"
  shows "claim_n (length (queues s) + 1) (clear_claimed s)
           = Inr (map Some (queues s) @ [None], s\<lparr>claimed_index := int (length (queues s))\<rparr>)
       \<and> claim_n (length (queues s) + 1) (clear_claimed (s\<lparr>claimed_index := int (length (queues s))\<rparr>))
           = Inr (map Some (queues s) @ [None], s\<lparr>claimed_index := int (length (queues s))\<rparr>)
       \<and> (\<forall>k \<le> length (queues s).
             claim_n k (clear_claimed s) = Inr (map Some (take k (queues s)), s\<lparr>claimed_index := int k\<rparr>))
       \<and> (\<forall>q s'. - (2 ^ 31) \<le> claimed_index s \<longrightarrow> claim_next s = Inr (Some q, s') \<longrightarrow>
             0 \<le> claimed_index s \<and> claimed_index s < int (length (queues s))
             \<and> q = queues s ! nat (claimed_index s)
             \<and> s' = s\<lparr>claimed_index := claimed_index s + 1\<rparr>)"
proof -
  have run: "claim_n m (clear_claimed t)
      = Inr (map (claimed t) [0 ..< m], t\<lparr>claimed_index := int (min (length (queues t)) m)\<rparr>)"
    if "length (queues t) < 2 ^ 31" for t :: "'q ParallelClaimableQueueSet" and m
    using claim_n_from [of "clear_claimed t" 0 m] that
    by (simp add: clear_claimed_def claimed_def [abs_def])
  have full: "map (claimed s) [0 ..< length (queues s) + 1] = map Some (queues s) @ [None]"
    using claimed_all [of s] by (simp add: claimed_def)
  have a: "claim_n (length (queues s) + 1) (clear_claimed s)
           = Inr (map Some (queues s) @ [None], s\<lparr>claimed_index := int (length (queues s))\<rparr>)"
    using run [OF assms, of "length (queues s) + 1"] full by simp
  have b: "claim_n (length (queues s) + 1) (clear_claimed (s\<lparr>claimed_index := int (length (queues s))\<rparr>))
           = Inr (map Some (queues s) @ [None], s\<lparr>claimed_index := int (length (queues s))\<rparr>)"
    using a by (simp add: clear_claimed_def)
  have c: "\<forall>k \<le> length (queues s).
             claim_n k (clear_claimed s) = Inr (map Some (take k (queues s)), s\<lparr>claimed_index := int k\<rparr>)"
    using run [OF assms] by (simp add: claimed_prefix min_absorb2)
  have d: "\<forall>q s'. - (2 ^ 31) \<le> claimed_index s \<longrightarrow> claim_next s = Inr (Some q, s') \<longrightarrow>
             0 \<le> claimed_index s \<and> claimed_index s < int (length (queues s))
             \<and> q = queues s ! nat (claimed_index s)
             \<and> s' = s\<lparr>claimed_index := claimed_index s + 1\<rparr>"
    using assms by (auto simp add: claim_next_cases split: if_splits)
  from a b c d show ?thesis by (intro conjI)
qed


text \<open>Three queues, and a cursor that held 7 before \<^verbatim>\<open>clear_claimed()\<close>.\<close>

theorem claim_next_sequence_witness:
  "length (queues (ParallelClaimableQueueSet0 [10, 20, 30 :: nat] 7)) < 2 ^ 31
   \<and> claim_n 4 (clear_claimed (ParallelClaimableQueueSet0 [10, 20, 30 :: nat] 7))
       = Inr ([Some 10, Some 20, Some 30, None],
              (ParallelClaimableQueueSet0 [10, 20, 30 :: nat] 7)\<lparr>claimed_index := 3\<rparr>)"
proof -
  let ?S = "ParallelClaimableQueueSet0 [10, 20, 30 :: nat] 7"
  have q: "queues ?S = [10, 20, 30]"
    by (simp add: ParallelClaimableQueueSet0_def)
  have h: "length (queues ?S) < 2 ^ 31"
    by (simp add: q)
  have n: "length (queues ?S) + 1 = 4" "int (length (queues ?S)) = 3"
    by (simp_all add: q)
  from claim_next_sequence [OF h]
  have "claim_n (length (queues ?S) + 1) (clear_claimed ?S)
          = Inr (map Some (queues ?S) @ [None], ?S\<lparr>claimed_index := int (length (queues ?S))\<rparr>)"
    by (rule conjunct1)
  then have "claim_n 4 (clear_claimed ?S)
          = Inr ([Some 10, Some 20, Some 30, None], ?S\<lparr>claimed_index := 3\<rparr>)"
    unfolding n by (simp add: q)
  with h show ?thesis by (rule conjI)
qed

text \<open>
  C2 as stated fails on the set as constructed: the constructor does not write
  \<^verbatim>\<open>_claimed_index\<close>, and a set of three queues built on memory that holds 7 there answers its
  first four calls of \<^verbatim>\<open>claim_next()\<close> with NULL, not with the queues at indices 0, 1, 2 and
  then NULL.
\<close>

theorem claim_next_on_constructed_counterexample:
  "claim_n 4 (ParallelClaimableQueueSet0 [10, 20, 30 :: nat] 7)
     = Inr ([None, None, None, None], ParallelClaimableQueueSet0 [10, 20, 30 :: nat] 7)
   \<and> claim_n 4 (ParallelClaimableQueueSet0 [10, 20, 30 :: nat] 7)
     \<noteq> Inr ([Some 10, Some 20, Some 30, None],
            (ParallelClaimableQueueSet0 [10, 20, 30 :: nat] 7)\<lparr>claimed_index := 3\<rparr>)"
proof -
  let ?S = "ParallelClaimableQueueSet0 [10, 20, 30 :: nat] 7"
  have h: "length (queues ?S) < 2 ^ 31" "int (length (queues ?S)) \<le> claimed_index ?S"
    by (simp_all add: ParallelClaimableQueueSet0_def)
  have "claim_n 4 ?S = Inr (replicate 4 None, ?S)"
    using h by (rule claim_n_exhausted)
  then show ?thesis
    by (simp add: eval_nat_numeral)
qed

text \<open>
  C8: for a queue set of size N and \<open>k \<le> N\<close>, \<^verbatim>\<open>reserve(k)\<close> passes its assertion, and the calls
  of \<^verbatim>\<open>claim_next()\<close> after it, by one thread, find the cursor at \<open>k, k+1, \<dots>\<close>: each returns
  the queue at that index, or NULL from index N on. The first call returns the queue at index
  k when \<open>k < N\<close> (with \<open>k = N\<close> every call returns NULL), and no call returns a queue at an
  index below k.
\<close>

theorem reserve_excludes_prefix:
  fixes s :: "'q ParallelClaimableQueueSet"
  assumes "length (queues s) < 2 ^ 31" and "k \<le> length (queues s)"
  shows "reserve_debug (int k) s = Inr (reserve (int k) s)
       \<and> claim_n m (reserve (int k) s)
           = Inr (map (claimed s) [k ..< k + m],
                  (reserve (int k) s)\<lparr>claimed_index := int (min (length (queues s)) (k + m))\<rparr>)
       \<and> (k < length (queues s) \<longrightarrow>
            claim_next (reserve (int k) s)
              = Inr (Some (queues s ! k), (reserve (int k) s)\<lparr>claimed_index := int k + 1\<rparr>))
       \<and> (k = length (queues s) \<longrightarrow>
            claim_n m (reserve (int k) s) = Inr (replicate m None, reserve (int k) s))
       \<and> (distinct (queues s) \<longrightarrow>
            (\<forall>i < k. Some (queues s ! i) \<notin> set (map (claimed s) [k ..< k + m])))"
proof -
  have b: "int (length (queues s)) < 2 ^ 31"
    using assms(1) by (metis of_nat_less_iff of_nat_numeral of_nat_power)
  have kb: "int k \<le> int (length (queues s))"
    using assms(2) by simp
  have j: "to_jint (int k) = int k"
    using b kb by (intro to_jint_id) simp_all
  have sz: "size_qs s = int (length (queues s))"
    using b by (simp add: size_qs_def to_uint_id)
  have q: "queues (reserve (int k) s) = queues s"
    by (simp add: reserve_def)
  have ci: "claimed_index (reserve (int k) s) = int k"
    by (simp add: reserve_def j)
  have l: "length (queues (reserve (int k) s)) < 2 ^ 31"
    using assms(1) by (simp only: q)
  have cl: "claimed (reserve (int k) s) = claimed s"
    by (simp add: claimed_def q fun_eq_iff)
  have a1: "reserve_debug (int k) s = Inr (reserve (int k) s)"
    using kb by (simp add: reserve_debug_def sz)
  have a2: "claim_n m (reserve (int k) s)
           = Inr (map (claimed s) [k ..< k + m],
                  (reserve (int k) s)\<lparr>claimed_index := int (min (length (queues s)) (k + m))\<rparr>)"
    using claim_n_from [OF l ci, of m] assms(2) by (simp only: q cl)
  have a3: "k < length (queues s) \<longrightarrow>
            claim_next (reserve (int k) s)
              = Inr (Some (queues s ! k), (reserve (int k) s)\<lparr>claimed_index := int k + 1\<rparr>)"
    using claim_next_in_range [OF l ci] by (simp only: q) simp
  have a4: "k = length (queues s) \<longrightarrow>
            claim_n m (reserve (int k) s) = Inr (replicate m None, reserve (int k) s)"
  proof
    assume e: "k = length (queues s)"
    have "int (length (queues (reserve (int k) s))) \<le> claimed_index (reserve (int k) s)"
      unfolding ci q using e by simp
    from claim_n_exhausted [OF l this]
    show "claim_n m (reserve (int k) s) = Inr (replicate m None, reserve (int k) s)" .
  qed
  have a5: "distinct (queues s) \<longrightarrow>
            (\<forall>i < k. Some (queues s ! i) \<notin> set (map (claimed s) [k ..< k + m]))"
    using assms(2) by (auto simp add: claimed_def nth_eq_iff_index_eq split: if_splits)
  from a1 a2 a3 a4 a5 show ?thesis by (intro conjI)
qed

text \<open>Three queues, the first reserved.\<close>

theorem reserve_excludes_prefix_witness:
  "length (queues (ParallelClaimableQueueSet0 [10, 20, 30 :: nat] 7)) < 2 ^ 31
   \<and> (1::nat) \<le> length (queues (ParallelClaimableQueueSet0 [10, 20, 30 :: nat] 7))
   \<and> claim_next (reserve 1 (ParallelClaimableQueueSet0 [10, 20, 30 :: nat] 7))
       = Inr (Some 20, (ParallelClaimableQueueSet0 [10, 20, 30 :: nat] 7)\<lparr>claimed_index := 2, reserved := 1\<rparr>)"
proof -
  let ?S = "ParallelClaimableQueueSet0 [10, 20, 30 :: nat] 7"
  have q: "queues ?S = [10, 20, 30]"
    by (simp add: ParallelClaimableQueueSet0_def)
  have h: "length (queues ?S) < 2 ^ 31"
    by (simp add: q)
  have k: "(1::nat) \<le> length (queues ?S)" "(1::nat) < length (queues ?S)"
    by (simp_all add: q)
  from reserve_excludes_prefix [OF h k(1), of 0] k(2)
  have "claim_next (reserve (int 1) ?S)
          = Inr (Some (queues ?S ! 1), (reserve (int 1) ?S)\<lparr>claimed_index := int 1 + 1\<rparr>)"
    by blast
  then have "claim_next (reserve 1 ?S) = Inr (Some 20, ?S\<lparr>claimed_index := 2, reserved := 1\<rparr>)"
    by (simp add: q) (simp add: reserve_def)
  with h k(1) show ?thesis by (intro conjI)
qed

text \<open>
  C10, as the code has it. The size is the constructor's \<^verbatim>\<open>int\<close> argument and the cursor is a
  \<^verbatim>\<open>jint\<close>. With one thread, once the cursor has been set it never exceeds the size of the
  queue set: \<^verbatim>\<open>clear_claimed()\<close> and \<^verbatim>\<open>reserve(n)\<close> with \<open>n \<le> size\<close> establish
  \<^verbatim>\<open>_claimed_index <= size\<close>, \<^verbatim>\<open>claim_next()\<close> preserves it and never moves the cursor back, and
  a call that finds the cursor at or past the size returns NULL and leaves the state as it
  was, however often it is repeated.
\<close>

theorem cursor_within_size:
  fixes s :: "'q ParallelClaimableQueueSet"
  assumes "length (queues s) < 2 ^ 31" and "- (2 ^ 31) \<le> claimed_index s"
  shows "cursor_inv (clear_claimed s)
       \<and> (\<forall>n. 0 \<le> n \<longrightarrow> n \<le> size_qs s \<longrightarrow>
            reserve_debug n s = Inr (reserve n s) \<and> cursor_inv (reserve n s))
       \<and> (cursor_inv s \<longrightarrow>
            (\<forall>r s'. claim_next s = Inr (r, s') \<longrightarrow>
               cursor_inv s' \<and> claimed_index s \<le> claimed_index s'))
       \<and> (to_jint (size_qs s) \<le> claimed_index s \<longrightarrow>
            claim_next s = Inr (None, s) \<and> claim_n m s = Inr (replicate m None, s))
       \<and> (cursor_inv s \<longrightarrow> 0 \<le> claimed_index s \<longrightarrow>
            (\<exists>rs s'. claim_n m s = Inr (rs, s') \<and> cursor_inv s'))"
proof -
  have b: "int (length (queues s)) < 2 ^ 31"
    using assms(1) by (metis of_nat_less_iff of_nat_numeral of_nat_power)
  have sz: "size_qs s = int (length (queues s))"
    using b by (simp add: size_qs_def to_uint_id)
  note js = size_small [OF assms(1)]
  have a1: "cursor_inv (clear_claimed s)"
    by (simp add: cursor_inv_def clear_claimed_def size_qs_updates js)
  have a2: "\<forall>n. 0 \<le> n \<longrightarrow> n \<le> size_qs s \<longrightarrow>
            reserve_debug n s = Inr (reserve n s) \<and> cursor_inv (reserve n s)"
  proof (intro allI impI)
    fix n :: int
    assume n: "0 \<le> n" "n \<le> size_qs s"
    then have "to_jint n = n"
      using b by (intro to_jint_id) (simp_all add: sz)
    with n show "reserve_debug n s = Inr (reserve n s) \<and> cursor_inv (reserve n s)"
      by (simp add: reserve_debug_def cursor_inv_def reserve_def size_qs_updates js) (simp add: sz)
  qed
  have a3: "cursor_inv s \<longrightarrow>
            (\<forall>r s'. claim_next s = Inr (r, s') \<longrightarrow>
               cursor_inv s' \<and> claimed_index s \<le> claimed_index s')"
    using js by (auto simp add: claim_next_cases [OF assms] cursor_inv_def size_qs_updates split: if_splits)
  have a4: "to_jint (size_qs s) \<le> claimed_index s \<longrightarrow>
            claim_next s = Inr (None, s) \<and> claim_n m s = Inr (replicate m None, s)"
    using claim_next_exhausted [OF assms(1)] claim_n_exhausted [OF assms(1), of m]
    by (simp add: js)
  have a5: "cursor_inv s \<longrightarrow> 0 \<le> claimed_index s \<longrightarrow>
            (\<exists>rs s'. claim_n m s = Inr (rs, s') \<and> cursor_inv s')"
  proof (intro impI)
    assume i: "cursor_inv s" and n: "0 \<le> claimed_index s"
    have k: "claimed_index s = int (nat (claimed_index s))"
      using n by simp
    have le: "nat (claimed_index s) \<le> length (queues s)"
      using i n by (simp add: cursor_inv_def js)
    define s' where "s' = s\<lparr>claimed_index := int (min (length (queues s)) (nat (claimed_index s) + m))\<rparr>"
    have "claim_n m s = Inr (map (claimed s) [nat (claimed_index s) ..< nat (claimed_index s) + m], s')"
      unfolding s'_def using assms(1) k le by (rule claim_n_from)
    moreover have "cursor_inv s'"
      using js by (simp add: cursor_inv_def s'_def size_qs_updates)
    ultimately show "\<exists>rs s'. claim_n m s = Inr (rs, s') \<and> cursor_inv s'"
      by blast
  qed
  from a1 a2 a3 a4 a5 show ?thesis by (intro conjI)
qed

text \<open>Two queues and a cursor past them: the reset, and an exhausted call.\<close>

theorem cursor_within_size_witness:
  "length (queues (ParallelClaimableQueueSet0 [10, 20 :: nat] 7)) < 2 ^ 31
   \<and> - (2 ^ 31) \<le> claimed_index (ParallelClaimableQueueSet0 [10, 20 :: nat] 7)
   \<and> cursor_inv (clear_claimed (ParallelClaimableQueueSet0 [10, 20 :: nat] 7))
   \<and> claim_next (ParallelClaimableQueueSet0 [10, 20 :: nat] 7)
       = Inr (None, ParallelClaimableQueueSet0 [10, 20 :: nat] 7)"
proof -
  let ?S = "ParallelClaimableQueueSet0 [10, 20 :: nat] 7"
  have h: "length (queues ?S) < 2 ^ 31" "- (2 ^ 31) \<le> claimed_index ?S"
    by (simp_all add: ParallelClaimableQueueSet0_def)
  have e: "to_jint (size_qs ?S) \<le> claimed_index ?S"
    by (simp add: ParallelClaimableQueueSet0_def size_qs_def to_uint_def to_jint_def)
  from cursor_within_size [OF h, of 0] e
  have "cursor_inv (clear_claimed ?S)" "claim_next ?S = Inr (None, ?S)"
    by blast+
  with h show ?thesis by (intro conjI)
qed

text \<open>
  C10 as stated fails at the constructor, which does not write \<^verbatim>\<open>_claimed_index\<close>: a set of two
  queues built on memory that holds 7 there has its cursor past its size.
\<close>

theorem constructor_leaves_cursor_counterexample:
  "\<not> cursor_inv (ParallelClaimableQueueSet0 [10, 20 :: nat] 7)"
  by (simp add: ParallelClaimableQueueSet0_def cursor_inv_def size_qs_def to_uint_def to_jint_def)

end
